theory Spec2Isabelle
  imports Main
begin

section \<open>EventEmitter v3.0.0: a shallow embedding of src/EventEmitter.js\<close>

text \<open>
  The emitter keeps a JavaScript object \<open>_listeners\<close> from event-type names to array
  objects holding \<open>Event\<close> records, and a number \<open>_maxListeners\<close>. Array objects are
  shared by reference: \<open>eachListener\<close> keeps the array it started on while listeners
  may delete or replace the entry of the type, so arrays live in a store indexed by
  addresses. Listeners are JavaScript functions that may call back into the emitter;
  a listener is a function reference (a number, compared by identity) and its body is a
  list of calls of the emitter's methods, possibly ending in a \<open>throw\<close>.

  Event-type names are strings, used as property names of the object \<open>_listeners\<close>.
  Two names are not like the others. An assignment to \<open>__proto__\<close> replaces the
  prototype of the object and creates no property of its own, so that name never has an
  entry. A property \<open>hasOwnProperty\<close> of its own hides the method of that name, and the
  call \<open>this._listeners.hasOwnProperty(type)\<close> then throws a TypeError (an array is
  not a function).
\<close>

subsection \<open>Values\<close>

type_synonym fnref = nat
type_synonym addr = nat

datatype jsval =
    Undefined
  | Null
  | Bool bool
  | Num int
  | Str string
  | Fn fnref
  | Obj nat
  | Arr "jsval list"

text \<open>JavaScript truthiness, as used by \<open>||\<close>, \<open>&&\<close> and \<open>if\<close>.\<close>

fun truthy :: "jsval \<Rightarrow> bool" where
  "truthy Undefined = False"
| "truthy Null = False"
| "truthy (Bool b) = b"
| "truthy (Num n) = (n \<noteq> 0)"
| "truthy (Str s) = (s \<noteq> [])"
| "truthy (Fn f) = True"
| "truthy (Obj x) = True"
| "truthy (Arr xs) = True"

text \<open>
  The second parameter of \<open>emit\<close>: an array by its documentation, \<open>undefined\<close> when the
  caller leaves it out, and the type name (a string) when \<open>addListener\<close> calls
  \<open>this.emit('newListener', type, listener, scope, once)\<close>, where the parameters after
  the second are dropped.
\<close>

datatype arglist =
    NoArgs
  | ArgsArray "jsval list"
  | ArgsString string

datatype exn = TypeError | UserError

text \<open>
  \<open>args || []\<close> followed by \<open>Function.prototype.apply\<close>: an array is spread into the
  arguments; a falsy value is replaced by the empty array; a non-empty string is truthy
  and not an object, so \<open>apply\<close> throws a TypeError before the function is entered.
\<close>

fun apply_arguments :: "arglist \<Rightarrow> exn + jsval list" where
  "apply_arguments NoArgs = Inr []"
| "apply_arguments (ArgsArray xs) = Inr xs"
| "apply_arguments (ArgsString s) = (if s = [] then Inr [] else Inl TypeError)"

subsection \<open>The Event class and the emitter's state\<close>

record Event =
  ev_type :: string
  listener :: fnref
  scope :: jsval
  once :: jsval

text \<open>The receiver of a listener call, \<open>this.scope || this\<close>.\<close>

datatype receiver = ThisScope jsval | ThisEvent Event

record invocation =
  callee :: fnref
  this_arg :: receiver
  arguments :: "jsval list"

text \<open>An array object: its elements and the expando property \<open>warned\<close>.\<close>

record array_obj =
  elems :: "Event list"
  warned :: bool

record EventEmitter =
  u_listeners :: "string \<Rightarrow> addr option"
  u_proto :: "addr option"
  u_maxListeners :: nat
  store :: "addr \<Rightarrow> array_obj"
  next_addr :: addr
  console :: "nat list"
  trace :: "invocation list"

text \<open>
  \<open>u_listeners\<close> holds the properties of \<open>_listeners\<close> of its own; \<open>u_proto\<close> is the
  array that an assignment to \<open>__proto__\<close> made its prototype, if there was one.
  \<open>console\<close> collects the listener count printed by each \<open>console.warn\<close>;
  \<open>trace\<close> collects every listener call that was entered, in order.
\<close>

definition new_EventEmitter :: EventEmitter where
  "new_EventEmitter =
     \<lparr>u_listeners = (\<lambda>t. None), u_proto = None, u_maxListeners = 10,
      store = (\<lambda>a. \<lparr>elems = [], warned = False\<rparr>), next_addr = 0,
      console = [], trace = []\<rparr>"

type_synonym 'a result = "(exn + 'a) \<times> EventEmitter"

subsection \<open>The object \<open>_listeners\<close>\<close>

text \<open>
  \<open>if (this._listeners.hasOwnProperty(type))\<close> followed by the read of
  \<open>this._listeners[type]\<close>: a TypeError when the method is hidden, else the array of
  the type when the type has a property of its own.
\<close>

definition own_array :: "string \<Rightarrow> EventEmitter \<Rightarrow> exn + addr option" where
  "own_array t s =
     (if u_listeners s ''hasOwnProperty'' \<noteq> None then Inl TypeError
      else Inr (if t = ''__proto__'' then None else u_listeners s t))"

text \<open>
  A read of \<open>this._listeners[type]\<close> without that test. The name \<open>__proto__\<close> reads
  the prototype.
\<close>

definition property :: "string \<Rightarrow> EventEmitter \<Rightarrow> addr option" where
  "property t s = (if t = ''__proto__'' then u_proto s else u_listeners s t)"

subsection \<open>Listener bodies\<close>

datatype cmd =
    CallAddListener string fnref jsval jsval
  | CallOnce string fnref jsval
  | CallRemoveListener string fnref
  | CallRemoveAllListeners "string option"
  | CallEmit string arglist
  | CallSetMaxListeners nat
  | Throw

type_synonym handlers = "fnref \<Rightarrow> receiver \<Rightarrow> jsval list \<Rightarrow> cmd list"

subsection \<open>eachListener\<close>

text \<open>What the loop of \<open>eachListener\<close> distinguishes in the callback's result.\<close>

datatype cbresult = RUndefined | RFalse | RTrue

text \<open>
  The end of the loop body and the increment: \<open>false\<close> steps back before the
  increment, \<open>true\<close> leaves the loop (\<open>None\<close>). The index starts at 0 and never
  decreases from one test of the loop to the next, so the test \<open>0 \<le> i\<close> in the loops
  below, which the source has no need of, is always true, and the loops read the array
  inside its bounds.
\<close>

definition advance :: "cbresult \<Rightarrow> int \<Rightarrow> int option" where
  "advance r i =
     (if r = RFalse then Some ((i - 1) + 1)
      else if r = RTrue then None
      else Some (i + 1))"

lemma advance_index: "0 \<le> i \<Longrightarrow> advance r i = Some i' \<Longrightarrow> i \<le> i'"
  by (auto simp: advance_def split: if_splits)

definition splice1 :: "'a list \<Rightarrow> nat \<Rightarrow> 'a list" where
  "splice1 xs i = take i xs @ drop (Suc i) xs"

text \<open>The callback of \<open>removeListener\<close>; it returns nothing.\<close>

definition removeListener_callback ::
  "string \<Rightarrow> fnref \<Rightarrow> Event \<Rightarrow> int \<Rightarrow> EventEmitter \<Rightarrow> cbresult result" where
  "removeListener_callback t l currentListener index s =
     (if listener currentListener = l then
        (case property t s of
           None \<Rightarrow> (Inl TypeError, s)
         | Some a \<Rightarrow>
             (Inr RUndefined,
              s\<lparr>store := (store s)(a := (store s a)\<lparr>elems := splice1 (elems (store s a)) (nat index)\<rparr>)\<rparr>))
      else (Inr RUndefined, s))"

lemma removeListener_callback_shrinks:
  "removeListener_callback t l e i s = (Inr r, s') \<Longrightarrow>
     r = RUndefined \<and> length (elems (store s' a)) \<le> length (elems (store s a))"
  by (auto simp: removeListener_callback_def splice1_def split: if_splits option.splits)

text \<open>The loop of \<open>eachListener\<close> on the array \<open>a\<close>, with the callback of \<open>removeListener\<close>.\<close>

function eachListener_remove ::
  "string \<Rightarrow> fnref \<Rightarrow> addr \<Rightarrow> int \<Rightarrow> EventEmitter \<Rightarrow> unit result" where
  "eachListener_remove t l a i s =
     (if 0 \<le> i \<and> i < int (length (elems (store s a))) then
        (case removeListener_callback t l (elems (store s a) ! nat i) i s of
           (Inl e, s') \<Rightarrow> (Inl e, s')
         | (Inr r, s') \<Rightarrow>
             (case advance r i of
                None \<Rightarrow> (Inr (), s')
              | Some i' \<Rightarrow> eachListener_remove t l a i' s'))
      else (Inr (), s))"
  by pat_completeness auto
termination
proof (relation "measure (\<lambda>(t, l, a, i, s). nat (int (length (elems (store s a))) - i))")
  show "wf (measure (\<lambda>(t, l, a, i, s). nat (int (length (elems (store s a))) - i)))"
    by simp
next
  fix t l a i s e s' r i'
  assume range: "0 \<le> i \<and> i < int (length (elems (store s a)))"
    and pair: "(e, s') = removeListener_callback t l (elems (store s a) ! nat i) i s"
    and e: "e = Inr r" and adv: "advance r i = Some i'"
  from pair e
  have cb: "removeListener_callback t l (elems (store s a) ! nat i) i s = (Inr r, s')"
    by simp
  from removeListener_callback_shrinks [OF cb, of a]
  have r: "r = RUndefined"
    and le: "length (elems (store s' a)) \<le> length (elems (store s a))"
    by simp_all
  from adv r have "i' = i + 1"
    by (simp add: advance_def)
  with range le
  show "((t, l, a, i', s'), (t, l, a, i, s)) \<in>
          measure (\<lambda>(t, l, a, i, s). nat (int (length (elems (store s a))) - i))"
    by simp
qed

subsection \<open>removeListener, removeAllListeners, listeners, setMaxListeners\<close>

definition removeListener :: "string \<Rightarrow> fnref \<Rightarrow> EventEmitter \<Rightarrow> unit result" where
  "removeListener t l s =
     (case (case own_array t s of
              Inl e \<Rightarrow> (Inl e, s)
            | Inr None \<Rightarrow> (Inr (), s)
            | Inr (Some a) \<Rightarrow> eachListener_remove t l a 0 s) of
        (Inl e, s1) \<Rightarrow> (Inl e, s1)
      | (Inr u, s1) \<Rightarrow>
          (case property t s1 of
             None \<Rightarrow> (Inr (), s1)
           | Some a \<Rightarrow>
               if length (elems (store s1 a)) = 0
               then (Inr (), s1\<lparr>u_listeners := (u_listeners s1)(t := None)\<rparr>)
               else (Inr (), s1)))"

text \<open>
  \<open>None\<close> is a call without an argument; the empty string is falsy as well, and then
  \<open>hasOwnProperty\<close> is not called. \<open>this._listeners = {}\<close> is a new object, with the
  prototype of every object.
\<close>

definition removeAllListeners :: "string option \<Rightarrow> EventEmitter \<Rightarrow> unit result" where
  "removeAllListeners ty s =
     (case ty of
        None \<Rightarrow> (Inr (), s\<lparr>u_listeners := (\<lambda>t. None), u_proto := None\<rparr>)
      | Some t \<Rightarrow>
          if t \<noteq> [] then
            (case own_array t s of
               Inl e \<Rightarrow> (Inl e, s)
             | Inr None \<Rightarrow> (Inr (), s)
             | Inr (Some a) \<Rightarrow> (Inr (), s\<lparr>u_listeners := (u_listeners s)(t := None)\<rparr>))
          else (Inr (), s\<lparr>u_listeners := (\<lambda>t. None), u_proto := None\<rparr>))"

datatype listeners_result = Absent | Live addr

definition listeners :: "string \<Rightarrow> EventEmitter \<Rightarrow> exn + listeners_result" where
  "listeners t s =
     (case own_array t s of
        Inl e \<Rightarrow> Inl e
      | Inr None \<Rightarrow> Inr Absent
      | Inr (Some a) \<Rightarrow> Inr (Live a))"

definition setMaxListeners :: "nat \<Rightarrow> EventEmitter \<Rightarrow> EventEmitter" where
  "setMaxListeners n s = s\<lparr>u_maxListeners := n\<rparr>"

subsection \<open>addListener, emit, Event.fire and the bodies of listeners\<close>

text \<open>
  The first two statements of \<open>addListener\<close>, once \<open>hasOwnProperty\<close> has answered:
  \<open>this._listeners[type] = []\<close> if the type has no property of its own, then the push.
  Under \<open>__proto__\<close> the new array becomes the prototype, every time.
\<close>

definition push_event :: "string \<Rightarrow> Event \<Rightarrow> EventEmitter \<Rightarrow> EventEmitter" where
  "push_event t ev s =
     (case (if t = ''__proto__'' then None else u_listeners s t) of
        None \<Rightarrow>
          (if t = ''__proto__''
           then s\<lparr>u_proto := Some (next_addr s),
                  store := (store s)(next_addr s := \<lparr>elems = [ev], warned = False\<rparr>),
                  next_addr := Suc (next_addr s)\<rparr>
           else s\<lparr>u_listeners := (u_listeners s)(t := Some (next_addr s)),
                  store := (store s)(next_addr s := \<lparr>elems = [ev], warned = False\<rparr>),
                  next_addr := Suc (next_addr s)\<rparr>)
      | Some a \<Rightarrow>
          s\<lparr>store := (store s)(a := (store s a)\<lparr>elems := elems (store s a) @ [ev]\<rparr>)\<rparr>)"

text \<open>
  The last statement of \<open>addListener\<close>: the check against \<open>_maxListeners\<close>. It reads
  \<open>this._listeners[type]\<close> without a test; a listener of \<open>newListener\<close> may have
  removed the entry meanwhile, and then the read of \<open>warned\<close> throws; listeners of
  \<open>newListener\<close> run only when the type name is empty, and no object has a property
  of that name. The prototype of every object, which \<open>__proto__\<close> reads when no array
  replaced it, has neither \<open>warned\<close> nor \<open>length\<close>.
\<close>

definition check_maxListeners :: "string \<Rightarrow> EventEmitter \<Rightarrow> unit result" where
  "check_maxListeners t s =
     (if u_maxListeners s \<noteq> 0 then
        (case property t s of
           None \<Rightarrow> (if t = ''__proto__'' then (Inr (), s) else (Inl TypeError, s))
         | Some a \<Rightarrow>
             if \<not> warned (store s a) \<and> length (elems (store s a)) > u_maxListeners s
             then (Inr (),
                   s\<lparr>console := console s @ [length (elems (store s a))],
                     store := (store s)(a := (store s a)\<lparr>warned := True\<rparr>)\<rparr>)
             else (Inr (), s))
      else (Inr (), s))"

definition this_of :: "Event \<Rightarrow> receiver" where
  "this_of ev = (if truthy (scope ev) then ThisScope (scope ev) else ThisEvent ev)"

text \<open>
  A listener may emit again, and the loop of a dispatch may go on for ever, so the
  dispatch takes fuel: every iteration of the loop of \<open>emit\<close> uses one unit, for the
  listener it fires and for the rest of the loop. \<open>None\<close> says that the fuel ran out; a
  dispatch that does not return is \<open>None\<close> for every fuel, and a result, once there,
  stays the same with more fuel (lemma \<open>more_fuel\<close> below).
\<close>

function (sequential) exec :: "handlers \<Rightarrow> nat \<Rightarrow> cmd \<Rightarrow> EventEmitter \<Rightarrow> unit result option"
and run_body :: "handlers \<Rightarrow> nat \<Rightarrow> cmd list \<Rightarrow> EventEmitter \<Rightarrow> unit result option"
and addListener ::
  "handlers \<Rightarrow> nat \<Rightarrow> string \<Rightarrow> fnref \<Rightarrow> jsval \<Rightarrow> jsval \<Rightarrow> EventEmitter \<Rightarrow> unit result option"
and emit :: "handlers \<Rightarrow> nat \<Rightarrow> string \<Rightarrow> arglist \<Rightarrow> EventEmitter \<Rightarrow> unit result option"
and eachListener_emit ::
  "handlers \<Rightarrow> nat \<Rightarrow> arglist \<Rightarrow> addr \<Rightarrow> int \<Rightarrow> EventEmitter \<Rightarrow> unit result option"
and fire :: "handlers \<Rightarrow> nat \<Rightarrow> Event \<Rightarrow> arglist \<Rightarrow> EventEmitter \<Rightarrow> cbresult result option"
where
  "exec B n (CallAddListener t l sc onc) s = addListener B n t l sc onc s"
| "exec B n (CallOnce t l sc) s = addListener B n t l sc (Bool True) s"
| "exec B n (CallRemoveListener t l) s = Some (removeListener t l s)"
| "exec B n (CallRemoveAllListeners ty) s = Some (removeAllListeners ty s)"
| "exec B n (CallEmit t args) s = emit B n t args s"
| "exec B n (CallSetMaxListeners m) s = Some (Inr (), setMaxListeners m s)"
| "exec B n Throw s = Some (Inl UserError, s)"
| "run_body B n [] s = Some (Inr (), s)"
| "run_body B n (c # cs) s =
     (case exec B n c s of
        None \<Rightarrow> None
      | Some (Inl e, s') \<Rightarrow> Some (Inl e, s')
      | Some (Inr u, s') \<Rightarrow> run_body B n cs s')"
| "addListener B n t l sc onc s =
     (case own_array t s of
        Inl e \<Rightarrow> Some (Inl e, s)
      | Inr own \<Rightarrow>
          (case emit B n ''newListener'' (ArgsString t)
                  (push_event t \<lparr>ev_type = t, listener = l, scope = sc, once = onc\<rparr> s) of
             None \<Rightarrow> None
           | Some (Inl e, s') \<Rightarrow> Some (Inl e, s')
           | Some (Inr u, s') \<Rightarrow> Some (check_maxListeners t s')))"
| "emit B n t args s =
     (case own_array t s of
        Inl e \<Rightarrow> Some (Inl e, s)
      | Inr None \<Rightarrow> Some (Inr (), s)
      | Inr (Some a) \<Rightarrow> eachListener_emit B n args a 0 s)"
| "eachListener_emit B n args a i s =
     (if 0 \<le> i \<and> i < int (length (elems (store s a))) then
        (case n of
           0 \<Rightarrow> None
         | Suc m \<Rightarrow>
             (case fire B m (elems (store s a) ! nat i) args s of
                None \<Rightarrow> None
              | Some (Inl e, s') \<Rightarrow> Some (Inl e, s')
              | Some (Inr r, s') \<Rightarrow>
                  (case advance r i of
                     None \<Rightarrow> Some (Inr (), s')
                   | Some i' \<Rightarrow> eachListener_emit B m args a i' s')))
      else Some (Inr (), s))"
| "fire B n ev args s =
     (case apply_arguments args of
        Inl e \<Rightarrow> Some (Inl e, s)
      | Inr argv \<Rightarrow>
          (case run_body B n (B (listener ev) (this_of ev) argv)
                  (s\<lparr>trace := trace s @
                       [\<lparr>callee = listener ev, this_arg = this_of ev, arguments = argv\<rparr>]\<rparr>) of
             None \<Rightarrow> None
           | Some (Inl e, s') \<Rightarrow> Some (Inl e, s')
           | Some (Inr u, s') \<Rightarrow>
               if truthy (once ev) then
                 (case removeListener (ev_type ev) (listener ev) s' of
                    (Inl e, s'') \<Rightarrow> Some (Inl e, s'')
                  | (Inr u', s'') \<Rightarrow> Some (Inr RFalse, s''))
               else Some (Inr RUndefined, s')))"
  by pat_completeness auto
termination
proof (relation "inv_image (less_than <*lex*> less_than <*lex*> less_than)
    (\<lambda>x. case x of
       Inl (Inl (B, n, c, s)) \<Rightarrow> (n, 3::nat, 0::nat)
     | Inl (Inr (Inl (B, n, cs, s))) \<Rightarrow> (n, 4, length cs)
     | Inl (Inr (Inr (B, n, t, l, sc, onc, s))) \<Rightarrow> (n, 2, 0)
     | Inr (Inl (B, n, t, args, s)) \<Rightarrow> (n, 1, 0)
     | Inr (Inr (Inl (B, n, args, a, i, s))) \<Rightarrow> (n, 0, 0)
     | Inr (Inr (Inr (B, n, ev, args, s))) \<Rightarrow> (n, 5, 0))", goal_cases)
  case 1
  show ?case
    by (intro wf_inv_image wf_lex_prod wf_less_than)
qed simp_all

subsection \<open>Callers, listeners and predicates used in the statements\<close>

text \<open>
  A caller that issues the calls one after the other, catches what each one throws and
  collects the outcomes.
\<close>

fun calls_catching ::
  "handlers \<Rightarrow> nat \<Rightarrow> cmd list \<Rightarrow> EventEmitter \<Rightarrow> ((exn + unit) list \<times> EventEmitter) option" where
  "calls_catching B n [] s = Some ([], s)"
| "calls_catching B n (c # cs) s =
     (case exec B n c s of
        None \<Rightarrow> None
      | Some (r, s') \<Rightarrow>
          (case calls_catching B n cs s' of
             None \<Rightarrow> None
           | Some (rs, s'') \<Rightarrow> Some (r # rs, s'')))"

text \<open>The contents of the array that \<open>listeners(type)\<close> returns, if there is one.\<close>

definition registered :: "string \<Rightarrow> EventEmitter \<Rightarrow> Event list option" where
  "registered t s = map_option (\<lambda>a. elems (store s a)) (u_listeners s t)"

text \<open>
  What a test sees of a run: the outcome of every call, the listeners that were called,
  in order, and the listeners left under the type \<open>t\<close>.
\<close>

definition observe ::
  "string \<Rightarrow> ((exn + unit) list \<times> EventEmitter) option \<Rightarrow>
   ((exn + unit) list \<times> fnref list \<times> fnref list option) option" where
  "observe t x =
     map_option (\<lambda>(rs, s). (rs, map callee (trace s), map_option (map listener) (registered t s))) x"

text \<open>Listeners that return at once without touching the emitter.\<close>

definition quiet :: handlers where
  "quiet f this args = []"

text \<open>Listener 1 removes itself from the type \<open>e\<close>; the others are quiet.\<close>

definition self_removing :: handlers where
  "self_removing f this args = (if f = 1 then [CallRemoveListener ''e'' 1] else [])"

text \<open>Listener 1 throws; the others are quiet.\<close>

definition throwing :: handlers where
  "throwing f this args = (if f = 1 then [Throw] else [])"


text \<open>
  What a test of the limit sees of a run: the outcome of every call, what was printed,
  and how many Events are registered under the type \<open>t\<close>.
\<close>

definition observe_console ::
  "string \<Rightarrow> ((exn + unit) list \<times> EventEmitter) option \<Rightarrow>
   ((exn + unit) list \<times> nat list \<times> nat option) option" where
  "observe_console t x =
     map_option (\<lambda>(rs, s). (rs, console s, map_option length (registered t s))) x"

text \<open>What \<open>listeners(t)\<close> gives after a run.\<close>

definition listeners_after ::
  "string \<Rightarrow> ((exn + unit) list \<times> EventEmitter) option \<Rightarrow> (exn + listeners_result) option" where
  "listeners_after t x = map_option (\<lambda>(rs, s). listeners t s) x"


text \<open>
  The arrays of the registry are allocated, and two types never share one; no type of
  the registry has an empty array.
\<close>

definition well_allocated :: "EventEmitter \<Rightarrow> bool" where
  "well_allocated s \<longleftrightarrow>
     (\<forall>t a. u_listeners s t = Some a \<longrightarrow> a < next_addr s) \<and>
     (\<forall>t t' a. u_listeners s t = Some a \<longrightarrow> u_listeners s t' = Some a \<longrightarrow> t = t')"

definition no_empty_entry :: "EventEmitter \<Rightarrow> bool" where
  "no_empty_entry s \<longleftrightarrow> (\<forall>t a. u_listeners s t = Some a \<longrightarrow> elems (store s a) \<noteq> [])"

definition registry_ok :: "EventEmitter \<Rightarrow> bool" where
  "registry_ok s \<longleftrightarrow> well_allocated s \<and> no_empty_entry s"

section \<open>Auxiliary lemmas\<close>

subsection \<open>More fuel does not change a result\<close>

lemma more_fuel:
  shows "\<And>r. exec B n c s = Some r \<Longrightarrow> exec B (Suc n) c s = Some r"
    and "\<And>r. run_body B n cs s = Some r \<Longrightarrow> run_body B (Suc n) cs s = Some r"
    and "\<And>r. addListener B n t l sc onc s = Some r \<Longrightarrow> addListener B (Suc n) t l sc onc s = Some r"
    and "\<And>r. emit B n t args s = Some r \<Longrightarrow> emit B (Suc n) t args s = Some r"
    and "\<And>r. eachListener_emit B n args a i s = Some r \<Longrightarrow> eachListener_emit B (Suc n) args a i s = Some r"
    and "\<And>q. fire B n ev args s = Some q \<Longrightarrow> fire B (Suc n) ev args s = Some q"
proof (induct B n c s and B n cs s and B n t l sc onc s and B n t args s and B n args a i s
         and B n ev args s rule: exec_run_body_addListener_emit_eachListener_emit_fire.induct)
  case (1 B n t l sc onc s)
  then show ?case by (simp del: addListener.simps)
next
  case (2 B n t l sc s)
  then show ?case by (simp del: addListener.simps)
next
  case (3 B n t l s)
  then show ?case by simp
next
  case (4 B n ty s)
  then show ?case by simp
next
  case (5 B n t args s)
  then show ?case by (simp del: emit.simps)
next
  case (6 B n m s)
  then show ?case by simp
next
  case (7 B n s)
  then show ?case by simp
next
  case (8 B n s)
  then show ?case by simp
next
  case (9 B n c cs s)
  from "9.prems" obtain x s1 where ex: "exec B n c s = Some (x, s1)"
    by (cases "exec B n c s") (auto simp del: exec.simps split: prod.splits)
  from "9.hyps"(1) [OF ex] have ex': "exec B (Suc n) c s = Some (x, s1)" .
  show ?case
  proof (cases x)
    case (Inl e)
    with "9.prems" ex ex' show ?thesis by (auto simp del: exec.simps)
  next
    case (Inr u)
    with "9.prems" ex have "run_body B n cs s1 = Some r" by (simp del: exec.simps)
    from "9.hyps"(2) [OF ex refl Inr this] ex' Inr show ?thesis by (simp del: exec.simps)
  qed
next
  case (10 B n t l sc onc s)
  show ?case
  proof (cases "own_array t s")
    case (Inl e)
    with "10.prems" show ?thesis by simp
  next
    case (Inr own)
    let ?s2 = "push_event t \<lparr>ev_type = t, listener = l, scope = sc, once = onc\<rparr> s"
    from "10.prems" Inr obtain y where em: "emit B n ''newListener'' (ArgsString t) ?s2 = Some y"
      by (cases "emit B n ''newListener'' (ArgsString t) ?s2") (auto simp del: emit.simps)
    from "10.hyps" [OF Inr em] have "emit B (Suc n) ''newListener'' (ArgsString t) ?s2 = Some y" .
    with "10.prems" Inr em show ?thesis by (simp del: emit.simps)
  qed
next
  case (11 B n t args s)
  show ?case
  proof (cases "own_array t s")
    case (Inl e)
    with "11.prems" show ?thesis by simp
  next
    case (Inr oa)
    show ?thesis
    proof (cases oa)
      case None
      with "11.prems" Inr show ?thesis by simp
    next
      case (Some a)
      with "11.prems" Inr have "eachListener_emit B n args a 0 s = Some r"
        by (simp del: eachListener_emit.simps)
      from "11.hyps" [OF Inr Some this] Inr Some show ?thesis
        by (simp del: eachListener_emit.simps)
    qed
  qed
next
  case (12 B n args a i s)
  show ?case
  proof (cases "0 \<le> i \<and> i < int (length (elems (store s a)))")
    case False
    then have "eachListener_emit B k args a i s = Some (Inr (), s)" for k
      by (subst eachListener_emit.simps) (auto simp del: eachListener_emit.simps fire.simps)
    with "12.prems" show ?thesis by (simp del: eachListener_emit.simps)
  next
    case True
    with "12.prems" obtain m where n: "n = Suc m"
      by (cases n) auto
    from "12.prems" True n obtain x s1
      where f: "fire B m (elems (store s a) ! nat i) args s = Some (x, s1)"
      by (cases "fire B m (elems (store s a) ! nat i) args s")
         (auto simp del: fire.simps split: prod.splits)
    from "12.hyps"(1) [OF True n f]
    have f': "fire B (Suc m) (elems (store s a) ! nat i) args s = Some (x, s1)" .
    show ?thesis
    proof (cases x)
      case (Inl e)
      have "eachListener_emit B n args a i s = Some (Inl e, s1)"
        by (subst eachListener_emit.simps)
           (simp add: True n f Inl del: fire.simps eachListener_emit.simps)
      moreover have "eachListener_emit B (Suc n) args a i s = Some (Inl e, s1)"
        by (subst eachListener_emit.simps)
           (simp add: True n f' Inl del: fire.simps eachListener_emit.simps)
      ultimately show ?thesis using "12.prems" by simp
    next
      case (Inr res)
      show ?thesis
      proof (cases "advance res i")
        case None
        have "eachListener_emit B n args a i s = Some (Inr (), s1)"
          by (subst eachListener_emit.simps)
             (simp add: True n f Inr None del: fire.simps eachListener_emit.simps)
        moreover have "eachListener_emit B (Suc n) args a i s = Some (Inr (), s1)"
          by (subst eachListener_emit.simps)
             (simp add: True n f' Inr None del: fire.simps eachListener_emit.simps)
        ultimately show ?thesis using "12.prems" by simp
      next
        case (Some i')
        have "eachListener_emit B n args a i s = eachListener_emit B m args a i' s1"
          by (subst eachListener_emit.simps)
             (simp add: True n f Inr Some del: fire.simps eachListener_emit.simps)
        with "12.prems" have "eachListener_emit B m args a i' s1 = Some r"
          by simp
        from "12.hyps"(2) [OF True n f refl Inr Some this]
        have "eachListener_emit B (Suc m) args a i' s1 = Some r" .
        moreover have "eachListener_emit B (Suc n) args a i s = eachListener_emit B (Suc m) args a i' s1"
          by (subst eachListener_emit.simps)
             (simp add: True n f' Inr Some del: fire.simps eachListener_emit.simps)
        ultimately show ?thesis by simp
      qed
    qed
  qed
next
  case (13 B n ev args s)
  show ?case
  proof (cases "apply_arguments args")
    case (Inl e)
    with "13.prems" show ?thesis by simp
  next
    case (Inr argv)
    let ?s1 = "s\<lparr>trace := trace s @ [\<lparr>callee = listener ev, this_arg = this_of ev, arguments = argv\<rparr>]\<rparr>"
    from "13.prems" Inr obtain y
      where b: "run_body B n (B (listener ev) (this_of ev) argv) ?s1 = Some y"
      by (cases "run_body B n (B (listener ev) (this_of ev) argv) ?s1") auto
    from "13.hyps" [OF Inr b]
    have "run_body B (Suc n) (B (listener ev) (this_of ev) argv) ?s1 = Some y" .
    with "13.prems" Inr b show ?thesis by simp
  qed
qed

lemma calls_catching_more_fuel:
  "calls_catching B n cs s = Some r \<Longrightarrow> calls_catching B (Suc n) cs s = Some r"
proof (induction cs arbitrary: s r)
  case Nil
  then show ?case by simp
next
  case (Cons c cs)
  from Cons.prems obtain x s1 where ex: "exec B n c s = Some (x, s1)"
    by (cases "exec B n c s") (auto simp del: exec.simps)
  from Cons.prems ex obtain y where rest: "calls_catching B n cs s1 = Some y"
    by (cases "calls_catching B n cs s1") (auto simp del: exec.simps)
  from more_fuel(1) [OF ex] Cons.IH [OF rest] Cons.prems ex rest
  show ?case by (simp del: exec.simps)
qed

subsection \<open>The registry stays well-formed\<close>

lemma registry_ok_new: "registry_ok new_EventEmitter"
  by (simp add: registry_ok_def well_allocated_def no_empty_entry_def new_EventEmitter_def)

lemma registry_ok_trace [simp]: "registry_ok (s\<lparr>trace := x\<rparr>) = registry_ok s"
  by (simp add: registry_ok_def well_allocated_def no_empty_entry_def)

lemma registry_ok_push_event: "registry_ok s \<Longrightarrow> registry_ok (push_event t ev s)"
  unfolding registry_ok_def well_allocated_def no_empty_entry_def push_event_def
  by (cases "u_listeners s t") (auto simp: less_Suc_eq split: if_splits)

lemma registry_ok_check_maxListeners:
  "registry_ok s \<Longrightarrow> check_maxListeners t s = (r, s') \<Longrightarrow> registry_ok s'"
  unfolding registry_ok_def well_allocated_def no_empty_entry_def check_maxListeners_def
  by (auto split: if_splits option.splits)

lemma registry_ok_removeAllListeners:
  "registry_ok s \<Longrightarrow> removeAllListeners ty s = (r, s') \<Longrightarrow> registry_ok s'"
  unfolding registry_ok_def well_allocated_def no_empty_entry_def removeAllListeners_def
  by (auto split: if_splits option.splits sum.splits)

lemma registry_ok_setMaxListeners: "registry_ok s \<Longrightarrow> registry_ok (setMaxListeners m s)"
  by (simp add: registry_ok_def well_allocated_def no_empty_entry_def setMaxListeners_def)

lemma removeListener_callback_frame:
  assumes "removeListener_callback t l e i s = (r, s')"
  shows "u_listeners s' = u_listeners s \<and> u_proto s' = u_proto s \<and> next_addr s' = next_addr s
       \<and> trace s' = trace s
       \<and> (\<forall>b. property t s \<noteq> Some b \<longrightarrow> store s' b = store s b)
       \<and> (\<forall>b. set (elems (store s' b)) \<subseteq> set (elems (store s b)))"
  using assms
  by (auto simp: removeListener_callback_def splice1_def split: if_splits option.splits
           dest: in_set_takeD in_set_dropD)

lemma property_same:
  "u_listeners s' = u_listeners s \<Longrightarrow> u_proto s' = u_proto s \<Longrightarrow> property t s' = property t s"
  by (simp add: property_def)

lemma eachListener_remove_frame:
  "eachListener_remove t l a i s = (r, s') \<Longrightarrow>
     u_listeners s' = u_listeners s \<and> u_proto s' = u_proto s \<and> next_addr s' = next_addr s
   \<and> trace s' = trace s
   \<and> (\<forall>b. property t s \<noteq> Some b \<longrightarrow> store s' b = store s b)
   \<and> (\<forall>b. set (elems (store s' b)) \<subseteq> set (elems (store s b)))"
proof (induction t l a i s rule: eachListener_remove.induct)
  case (1 t l a i s)
  show ?case
  proof (cases "0 \<le> i \<and> i < int (length (elems (store s a)))")
    case False
    with "1.prems" show ?thesis by simp
  next
    case True
    obtain x s1 where cb: "removeListener_callback t l (elems (store s a) ! nat i) i s = (x, s1)"
      by (cases "removeListener_callback t l (elems (store s a) ! nat i) i s")
    note fr = removeListener_callback_frame [OF cb]
    from fr have pr: "property t s1 = property t s"
      by (intro property_same) simp_all
    show ?thesis
    proof (cases x)
      case (Inl e)
      with "1.prems" True cb fr show ?thesis by simp
    next
      case (Inr res)
      show ?thesis
      proof (cases "advance res i")
        case None
        with "1.prems" True cb fr Inr show ?thesis by simp
      next
        case (Some i')
        from "1.prems" True cb Inr Some
        have rec: "eachListener_remove t l a i' s1 = (r, s')" by simp
        note ih = "1.IH" [OF True cb [symmetric] Inr Some rec]
        from ih fr have "u_listeners s' = u_listeners s" "u_proto s' = u_proto s"
          "next_addr s' = next_addr s" "trace s' = trace s"
          by simp_all
        moreover from ih fr pr have "\<forall>b. property t s \<noteq> Some b \<longrightarrow> store s' b = store s b"
          by simp
        moreover have "\<forall>b. set (elems (store s' b)) \<subseteq> set (elems (store s b))"
        proof
          fix b
          from ih have "set (elems (store s' b)) \<subseteq> set (elems (store s1 b))" by blast
          also from fr have "\<dots> \<subseteq> set (elems (store s b))" by blast
          finally show "set (elems (store s' b)) \<subseteq> set (elems (store s b))" .
        qed
        ultimately show ?thesis by blast
      qed
    qed
  qed
qed

lemma eachListener_remove_returns:
  "property t s \<noteq> None \<Longrightarrow> eachListener_remove t l a i s = (r, s') \<Longrightarrow> r = Inr ()"
proof (induction t l a i s rule: eachListener_remove.induct)
  case (1 t l a i s)
  show ?case
  proof (cases "0 \<le> i \<and> i < int (length (elems (store s a)))")
    case False
    with "1.prems" show ?thesis by simp
  next
    case True
    obtain x s1 where cb: "removeListener_callback t l (elems (store s a) ! nat i) i s = (x, s1)"
      by (cases "removeListener_callback t l (elems (store s a) ! nat i) i s")
    from removeListener_callback_frame [OF cb] "1.prems"(1)
    have "property t s1 = property t s" by (intro property_same) simp_all
    with "1.prems"(1) have reg: "property t s1 \<noteq> None" by simp
    from cb "1.prems"(1) obtain res where x: "x = Inr res"
      by (auto simp: removeListener_callback_def split: if_splits)
    show ?thesis
    proof (cases "advance res i")
      case None
      with "1.prems" True cb x show ?thesis by simp
    next
      case (Some i')
      from "1.prems" True cb x Some
      have rec: "eachListener_remove t l a i' s1 = (r, s')" by simp
      from "1.IH" [OF True cb [symmetric] x Some reg rec]
      show ?thesis .
    qed
  qed
qed

lemma own_array_Some:
  "own_array t s = Inr (Some a) \<Longrightarrow> u_listeners s t = Some a \<and> property t s = Some a"
  by (auto simp: own_array_def property_def split: if_splits)


lemma registry_ok_removeListener:
  assumes ok: "registry_ok s" and rm: "removeListener t l s = (r, s')"
  shows "registry_ok s'"
proof (cases "own_array t s")
  case (Inl e)
  with rm have "s' = s" by (simp add: removeListener_def)
  with ok show ?thesis by simp
next
  case (Inr oa)
  show ?thesis
  proof (cases oa)
    case None
    with rm Inr have "s' = s \<or> s' = s\<lparr>u_listeners := (u_listeners s)(t := None)\<rparr>"
      by (auto simp: removeListener_def split: option.splits if_splits)
    with ok show ?thesis
      by (auto simp: registry_ok_def well_allocated_def no_empty_entry_def split: if_splits)
  next
    case (Some a)
    with Inr own_array_Some have ta: "u_listeners s t = Some a" and pa: "property t s = Some a"
      by blast+
    obtain x s1 where loop: "eachListener_remove t l a 0 s = (x, s1)"
      by (cases "eachListener_remove t l a 0 s")
    from eachListener_remove_frame [OF loop]
    have m: "u_listeners s1 = u_listeners s" and up: "u_proto s1 = u_proto s"
      and nx: "next_addr s1 = next_addr s"
      and st: "\<And>b. b \<noteq> a \<Longrightarrow> store s1 b = store s b"
      using pa by simp_all
    from m up have "property t s1 = property t s"
      by (rule property_same)
    with pa have pa1: "property t s1 = Some a"
      by simp
    have x: "x = Inr ()"
      using eachListener_remove_returns [OF _ loop] pa by simp
    have others: "\<And>t' b. t' \<noteq> t \<Longrightarrow> u_listeners s t' = Some b \<Longrightarrow> elems (store s1 b) \<noteq> []"
    proof -
      fix t' b assume "t' \<noteq> t" and b: "u_listeners s t' = Some b"
      with ok ta have "b \<noteq> a"
        unfolding registry_ok_def well_allocated_def by blast
      with st have "store s1 b = store s b" by simp
      with ok b show "elems (store s1 b) \<noteq> []"
        unfolding registry_ok_def no_empty_entry_def by simp
    qed
    have wa: "well_allocated s1"
      using ok m nx by (simp add: registry_ok_def well_allocated_def)
    show ?thesis
    proof (cases "length (elems (store s1 a)) = 0")
      case True
      with rm Inr Some loop x pa1 have s': "s' = s1\<lparr>u_listeners := (u_listeners s1)(t := None)\<rparr>"
        by (simp add: removeListener_def del: eachListener_remove.simps)
      have "well_allocated s'"
        using wa unfolding s' well_allocated_def
        by (simp split: if_splits)
      moreover have "no_empty_entry s'"
        unfolding s' no_empty_entry_def
        using others m by (simp split: if_splits)
      ultimately show ?thesis
        by (simp add: registry_ok_def)
    next
      case False
      with rm Inr Some loop x pa1 have s': "s' = s1"
        by (simp add: removeListener_def del: eachListener_remove.simps)
      have "no_empty_entry s1"
        unfolding no_empty_entry_def
      proof (intro allI impI)
        fix t' b assume b: "u_listeners s1 t' = Some b"
        show "elems (store s1 b) \<noteq> []"
        proof (cases "t' = t")
          case True
          with b m ta have "b = a" by simp
          with False show ?thesis by auto
        next
          case False
          with b m others show ?thesis by simp
        qed
      qed
      with wa show ?thesis
        by (simp add: s' registry_ok_def)
    qed
  qed
qed

lemma registry_ok_preserved:
  shows "\<And>r s'. registry_ok s \<Longrightarrow> exec B n c s = Some (r, s') \<Longrightarrow> registry_ok s'"
    and "\<And>r s'. registry_ok s \<Longrightarrow> run_body B n cs s = Some (r, s') \<Longrightarrow> registry_ok s'"
    and "\<And>r s'. registry_ok s \<Longrightarrow> addListener B n t l sc onc s = Some (r, s') \<Longrightarrow> registry_ok s'"
    and "\<And>r s'. registry_ok s \<Longrightarrow> emit B n t args s = Some (r, s') \<Longrightarrow> registry_ok s'"
    and "\<And>r s'. registry_ok s \<Longrightarrow> eachListener_emit B n args a i s = Some (r, s') \<Longrightarrow> registry_ok s'"
    and "\<And>q s'. registry_ok s \<Longrightarrow> fire B n ev args s = Some (q, s') \<Longrightarrow> registry_ok s'"
proof (induct B n c s and B n cs s and B n t l sc onc s and B n t args s and B n args a i s
         and B n ev args s rule: exec_run_body_addListener_emit_eachListener_emit_fire.induct)
  case (1 B n t l sc onc s)
  then show ?case by simp
next
  case (2 B n t l sc s)
  then show ?case by simp
next
  case (3 B n t l s)
  then show ?case
    by (cases "removeListener t l s") (auto dest: registry_ok_removeListener)
next
  case (4 B n ty s)
  then show ?case
    by (cases "removeAllListeners ty s") (auto dest: registry_ok_removeAllListeners)
next
  case (5 B n t args s)
  then show ?case by simp
next
  case (6 B n m s)
  then show ?case by (auto intro: registry_ok_setMaxListeners)
next
  case (7 B n s)
  then show ?case by simp
next
  case (8 B n s)
  then show ?case by simp
next
  case (9 B n c cs s)
  from "9.prems"(2) obtain x s1 where ex: "exec B n c s = Some (x, s1)"
    by (cases "exec B n c s") (auto split: prod.splits)
  from "9.hyps"(1) [OF "9.prems"(1) ex] have ok1: "registry_ok s1" .
  show ?case
  proof (cases x)
    case (Inl e)
    with "9.prems"(2) ex ok1 show ?thesis by simp
  next
    case (Inr u)
    with "9.prems"(2) ex have "run_body B n cs s1 = Some (r, s')" by simp
    from "9.hyps"(2) [OF ex refl Inr ok1 this] show ?thesis .
  qed
next
  case (10 B n t l sc onc s)
  show ?case
  proof (cases "own_array t s")
    case (Inl e)
    with "10.prems" show ?thesis by simp
  next
    case (Inr own)
    let ?s2 = "push_event t \<lparr>ev_type = t, listener = l, scope = sc, once = onc\<rparr> s"
    from "10.prems"(1) have ok2: "registry_ok ?s2" by (rule registry_ok_push_event)
    from "10.prems"(2) Inr obtain x s3
      where em: "emit B n ''newListener'' (ArgsString t) ?s2 = Some (x, s3)"
      by (cases "emit B n ''newListener'' (ArgsString t) ?s2")
         (auto simp del: emit.simps split: prod.splits)
    from "10.hyps" [OF Inr ok2 em] have ok3: "registry_ok s3" .
    show ?thesis
    proof (cases x)
      case (Inl e)
      with "10.prems"(2) \<open>own_array t s = Inr own\<close> em ok3 show ?thesis
        by (simp del: emit.simps)
    next
      case (Inr u)
      with "10.prems"(2) \<open>own_array t s = Inr own\<close> em
      have "check_maxListeners t s3 = (r, s')" by (simp del: emit.simps)
      with ok3 show ?thesis by (rule registry_ok_check_maxListeners)
    qed
  qed
next
  case (11 B n t args s)
  show ?case
  proof (cases "own_array t s")
    case (Inl e)
    with "11.prems" show ?thesis by simp
  next
    case (Inr oa)
    show ?thesis
    proof (cases oa)
      case None
      with "11.prems" Inr show ?thesis by simp
    next
      case (Some a)
      with "11.prems"(2) Inr have "eachListener_emit B n args a 0 s = Some (r, s')"
        by (simp del: eachListener_emit.simps)
      from "11.hyps" [OF Inr Some "11.prems"(1) this] show ?thesis .
    qed
  qed
next
  case (12 B n args a i s)
  show ?case
  proof (cases "0 \<le> i \<and> i < int (length (elems (store s a)))")
    case False
    with "12.prems" show ?thesis by simp
  next
    case True
    with "12.prems"(2) obtain m where n: "n = Suc m"
      by (cases n) auto
    from "12.prems"(2) True n obtain x s1
      where f: "fire B m (elems (store s a) ! nat i) args s = Some (x, s1)"
      by (cases "fire B m (elems (store s a) ! nat i) args s")
         (auto simp del: fire.simps split: prod.splits)
    from "12.hyps"(1) [OF True n "12.prems"(1) f] have ok1: "registry_ok s1" .
    show ?thesis
    proof (cases x)
      case (Inl e)
      with "12.prems"(2) True n f ok1 show ?thesis by (simp del: fire.simps)
    next
      case (Inr res)
      show ?thesis
      proof (cases "advance res i")
        case None
        with "12.prems"(2) True n f Inr ok1 show ?thesis by (simp del: fire.simps)
      next
        case (Some i')
        have "eachListener_emit B n args a i s = eachListener_emit B m args a i' s1"
          by (subst eachListener_emit.simps)
             (simp add: True n f Inr Some del: fire.simps eachListener_emit.simps)
        with "12.prems"(2) have "eachListener_emit B m args a i' s1 = Some (r, s')"
          by simp
        from "12.hyps"(2) [OF True n f refl Inr Some ok1 this] show ?thesis .
      qed
    qed
  qed
next
  case (13 B n ev args s)
  show ?case
  proof (cases "apply_arguments args")
    case (Inl e)
    with "13.prems" show ?thesis by simp
  next
    case (Inr argv)
    let ?s1 = "s\<lparr>trace := trace s @ [\<lparr>callee = listener ev, this_arg = this_of ev, arguments = argv\<rparr>]\<rparr>"
    from "13.prems"(1) have ok1: "registry_ok ?s1" by simp
    from "13.prems"(2) Inr obtain x s2
      where b: "run_body B n (B (listener ev) (this_of ev) argv) ?s1 = Some (x, s2)"
      by (cases "run_body B n (B (listener ev) (this_of ev) argv) ?s1")
         (auto split: prod.splits)
    from "13.hyps" [OF Inr ok1 b] have ok2: "registry_ok s2" .
    show ?thesis
    proof (cases x)
      case (Inl e)
      with "13.prems"(2) Inr b ok2 show ?thesis by simp
    next
      case (Inr u)
      note xr = this
      show ?thesis
      proof (cases "truthy (once ev)")
        case False
        with "13.prems"(2) \<open>apply_arguments args = Inr argv\<close> b xr ok2 show ?thesis by simp
      next
        case True
        obtain y s3 where rm: "removeListener (ev_type ev) (listener ev) s2 = (y, s3)"
          by (cases "removeListener (ev_type ev) (listener ev) s2")
        from registry_ok_removeListener [OF ok2 rm] have ok3: "registry_ok s3" .
        from "13.prems"(2) \<open>apply_arguments args = Inr argv\<close> b xr True rm
        have "s' = s3" by (cases y) simp_all
        with ok3 show ?thesis by simp
      qed
    qed
  qed
qed


subsection \<open>Listeners that do not call the emitter\<close>






section \<open>Properties\<close>

text \<open>
  C1 (the code breaks it): with listeners \<open>[h, h2]\<close> under a type, where \<open>h\<close> calls
  \<open>removeListener(type, h)\<close> on itself during \<open>emit(type)\<close>, both are to be called
  once. Here \<open>h\<close> is listener 1 and \<open>h2\<close> is listener 2, both registered with \<open>on\<close>:
  the emit calls listener 1 only, and listener 2 is still registered afterwards. Only a
  \<open>false\<close> from the callback steps the index back, and \<open>fire\<close> returns it for one-shot
  listeners only.
\<close>

theorem emit_skips_after_self_removal:
  "observe ''e''
     (calls_catching self_removing 10
        [CallAddListener ''e'' 1 Undefined Undefined,
         CallAddListener ''e'' 2 Undefined Undefined,
         CallEmit ''e'' NoArgs]
        new_EventEmitter)
   = Some ([Inr (), Inr (), Inr ()], [1], Some [2])"
  by code_simp




text \<open>
  C3 (the code breaks it): a one-shot listener that throws is to be removed all the
  same, so that a later emit does not call it again. Listener 1 throws: the emit throws
  what it threw, the Event stays registered, and the second emit calls listener 1
  again. \<open>fire\<close> removes the Event only after \<open>apply\<close> has returned.
\<close>

theorem throwing_once_listener_fires_again:
  "observe ''e''
     (calls_catching throwing 10
        [CallOnce ''e'' 1 Undefined, CallEmit ''e'' NoArgs, CallEmit ''e'' NoArgs]
        new_EventEmitter)
   = Some ([Inr (), Inl UserError, Inl UserError], [1, 1], Some [1])"
  by code_simp

text \<open>
  C4 (the code breaks it): \<open>removeListener(type, handler)\<close> is to remove every
  subscription of the handler, consecutive duplicates included. With listener 1
  registered twice in a row, one subscription of listener 1 is left: the callback of
  \<open>removeListener\<close> returns nothing after its \<open>splice\<close>, so the loop steps over the
  element that moved into the current slot.
\<close>

theorem removeListener_leaves_consecutive_duplicate:
  "observe ''e''
     (calls_catching quiet 10
        [CallAddListener ''e'' 1 Undefined Undefined,
         CallAddListener ''e'' 1 Undefined Undefined,
         CallRemoveListener ''e'' 1]
        new_EventEmitter)
   = Some ([Inr (), Inr (), Inr ()], [], Some [1])"
  by code_simp

text \<open>
  C5 (the code breaks it): with a listener subscribed to \<open>newListener\<close>, registering
  listener 2 for \<open>x\<close> with a scope is to call the \<open>newListener\<close> listener with
  \<open>("x", fn, scope, false)\<close>. Here listener 1 is subscribed to \<open>newListener\<close> (that call
  throws already, after the push). The registration for \<open>x\<close> throws a TypeError and no
  listener is ever entered: \<open>addListener\<close> hands the type name to \<open>emit\<close> as its
  \<open>args\<close>, and \<open>apply\<close> rejects a string.
\<close>

theorem newListener_listener_is_never_entered:
  "observe ''x''
     (calls_catching quiet 10
        [CallAddListener ''newListener'' 1 Undefined Undefined,
         CallAddListener ''x'' 2 (Obj 0) Undefined]
        new_EventEmitter)
   = Some ([Inl TypeError, Inl TypeError], [], Some [2])"
  by code_simp

text \<open>
  C6 (the code breaks it): \<open>once(type, h)\<close> followed by two \<open>emit(type)\<close> is to call
  \<open>h\<close> exactly once, for every handler. Listener 1, registered with \<open>once\<close> and a scope
  under \<open>tick\<close>, throws when it is called: both emits call it, and it is still
  registered after them. This is the defect of C3. With the quiet listener 2 in its
  place, the first emit calls it and removes the entry, and the second calls nothing.
\<close>

theorem once_listener_called_twice:
  "observe ''tick''
     (calls_catching throwing 10
        [CallOnce ''tick'' 1 (Obj 0),
         CallEmit ''tick'' (ArgsArray [Num 1]),
         CallEmit ''tick'' (ArgsArray [Num 2])]
        new_EventEmitter)
   = Some ([Inr (), Inl UserError, Inl UserError], [1, 1], Some [1]) \<and>
   observe ''tick''
     (calls_catching throwing 10
        [CallOnce ''tick'' 2 (Obj 0),
         CallEmit ''tick'' (ArgsArray [Num 1]),
         CallEmit ''tick'' (ArgsArray [Num 2])]
        new_EventEmitter)
   = Some ([Inr (), Inr (), Inr ()], [2], None)"
  by code_simp

text \<open>
  C7 (the code breaks it): with the default limit of 10, the 11th registration under
  one type is to print the one warning, and no registration is to be turned away.
  While listener 1 is subscribed to \<open>newListener\<close>, every one of twelve registrations
  under \<open>e\<close> throws a TypeError out of the \<open>emit\<close> of \<open>newListener\<close>, before the check
  against the limit: the twelve Events are in the array and nothing was printed. This
  is the defect of C5. Without the listener of \<open>newListener\<close> the twelve registrations
  return and the one warning, for 11 listeners, is printed.
\<close>

theorem no_warning_while_newListener_has_a_listener:
  "observe_console ''e''
     (calls_catching quiet 10
        (CallAddListener ''newListener'' 1 Undefined Undefined #
         replicate 12 (CallAddListener ''e'' 2 Undefined Undefined))
        new_EventEmitter)
   = Some (replicate 13 (Inl TypeError), [], Some 12) \<and>
   observe_console ''e''
     (calls_catching quiet 10
        (replicate 12 (CallAddListener ''e'' 2 Undefined Undefined))
        new_EventEmitter)
   = Some (replicate 12 (Inr ()), [11], Some 12)"
  by code_simp

text \<open>
  C8 (the code breaks it): \<open>listeners(type)\<close> is to return the value for "absent" for a
  type without an entry and the array of the type otherwise, and never to throw. After
  a registration under \<open>hasOwnProperty\<close> the array of that type hides the method that
  \<open>listeners\<close> calls on \<open>_listeners\<close>: \<open>listeners\<close> throws a TypeError, for the type
  \<open>x\<close>, which has no entry, and for \<open>hasOwnProperty\<close>, which has one. After a
  registration under \<open>x\<close> instead, \<open>listeners\<close> returns the array for \<open>x\<close> and the value
  for "absent" for \<open>y\<close>.
\<close>

theorem listeners_throws_after_hasOwnProperty:
  "listeners_after ''x''
     (calls_catching quiet 10
        [CallAddListener ''hasOwnProperty'' 1 Undefined Undefined] new_EventEmitter)
   = Some (Inl TypeError) \<and>
   listeners_after ''hasOwnProperty''
     (calls_catching quiet 10
        [CallAddListener ''hasOwnProperty'' 1 Undefined Undefined] new_EventEmitter)
   = Some (Inl TypeError) \<and>
   observe ''hasOwnProperty''
     (calls_catching quiet 10
        [CallAddListener ''hasOwnProperty'' 1 Undefined Undefined] new_EventEmitter)
   = Some ([Inl TypeError], [], Some [1]) \<and>
   listeners_after ''x''
     (calls_catching quiet 10 [CallAddListener ''x'' 1 Undefined Undefined] new_EventEmitter)
   = Some (Inr (Live 0)) \<and>
   listeners_after ''y''
     (calls_catching quiet 10 [CallAddListener ''x'' 1 Undefined Undefined] new_EventEmitter)
   = Some (Inr Absent)"
  by code_simp

text \<open>
  C9: no type of the registry ever has an empty array. A new emitter satisfies this,
  and every call of \<open>on\<close>, \<open>once\<close>, \<open>removeListener\<close>, \<open>removeAllListeners\<close>, \<open>emit\<close> and
  \<open>setMaxListeners\<close> that returns or throws, with whatever the listeners do meanwhile,
  leads from a registry without an empty array to one without (together with the fact
  that the arrays of the registry are allocated and not shared between types).
\<close>

theorem no_type_maps_to_empty_array:
  "well_allocated new_EventEmitter \<and> no_empty_entry new_EventEmitter \<and>
   (well_allocated s \<and> no_empty_entry s \<and> exec B n c s = Some (r, s')
      \<longrightarrow> well_allocated s' \<and> no_empty_entry s')"
  using registry_ok_new registry_ok_preserved(1) [of s B n c r s']
  by (auto simp: registry_ok_def)

text \<open>An instance: the emit that fires and removes the only, one-shot, listener.\<close>

theorem no_type_maps_to_empty_array_witness:
  "\<exists>s'. exec quiet 1 (CallEmit ''e'' NoArgs)
          (push_event ''e'' \<lparr>ev_type = ''e'', listener = 1, scope = Undefined, once = Bool True\<rparr>
             new_EventEmitter) = Some (Inr (), s')
      \<and> u_listeners s' ''e'' = None \<and> well_allocated s' \<and> no_empty_entry s'"
proof -
  let ?s = "push_event ''e'' \<lparr>ev_type = ''e'', listener = 1, scope = Undefined, once = Bool True\<rparr>
              new_EventEmitter"
  have ok: "well_allocated ?s \<and> no_empty_entry ?s"
    by (simp add: well_allocated_def no_empty_entry_def push_event_def new_EventEmitter_def)
  have "\<exists>s'. exec quiet 1 (CallEmit ''e'' NoArgs) ?s = Some (Inr (), s')
          \<and> u_listeners s' ''e'' = None"
    by (simp add: push_event_def new_EventEmitter_def quiet_def own_array_def property_def
          removeListener_def removeListener_callback_def advance_def splice1_def)
  then obtain s' where run: "exec quiet 1 (CallEmit ''e'' NoArgs) ?s = Some (Inr (), s')"
    and gone: "u_listeners s' ''e'' = None"
    by (elim exE conjE)
  from no_type_maps_to_empty_array [of ?s quiet 1 "CallEmit ''e'' NoArgs" "Inr ()" s'] ok run
  have "well_allocated s' \<and> no_empty_entry s'"
    by blast
  with run gone show ?thesis
    by (intro exI [of _ s']) (simp del: exec.simps)
qed

text \<open>
  C10 (the code breaks it): when listener 1 is registered with \<open>on\<close> and then with
  \<open>once\<close> under the same type, firing the one-shot is to remove every subscription of
  listener 1. The removal is by function reference and takes the persistent
  subscription away, but the one-shot Event itself stays registered (the scan of
  \<open>removeListener\<close> steps over it, as in C4): a second emit calls listener 1 once more,
  and only then is the type without listeners.
\<close>

theorem once_removal_leaves_the_one_shot:
  "observe ''e''
     (calls_catching quiet 10
        [CallAddListener ''e'' 1 Undefined Undefined,
         CallOnce ''e'' 1 Undefined,
         CallEmit ''e'' NoArgs]
        new_EventEmitter)
   = Some ([Inr (), Inr (), Inr ()], [1, 1], Some [1]) \<and>
   observe ''e''
     (calls_catching quiet 10
        [CallAddListener ''e'' 1 Undefined Undefined,
         CallOnce ''e'' 1 Undefined,
         CallEmit ''e'' NoArgs,
         CallEmit ''e'' NoArgs]
        new_EventEmitter)
   = Some ([Inr (), Inr (), Inr (), Inr ()], [1, 1, 1], None)"
  by code_simp

end
